theory Spec2Isabelle
  imports Main "HOL-Library.Sublist" "HOL-Library.Multiset"
begin

section \<open>Strings of Unicode code points\<close>

text \<open>
  A Python \<open>str\<close> is a sequence of Unicode code points. The pattern \<open>WORD_RE\<close> and the
  stop words contain Cyrillic letters, so a character is modelled by its code point
  (an integer, as \<open>ord\<close> gives it) and a string by the list of its code points. \<open>cps\<close> turns an
  ASCII literal into such a list.
\<close>

type_synonym codepoint = int
type_synonym str = "codepoint list"

definition cps :: "string \<Rightarrow> str" where
  "cps s = map of_char s"

text \<open>
  \<open>str.isspace\<close> on one character, as \<open>str.split()\<close> without arguments uses it: the
  ASCII controls U+0009..U+000D and U+001C..U+001F, the space, and the Unicode
  white space U+0085, U+00A0, U+1680, U+2000..U+200A, U+2028, U+2029, U+202F, U+205F,
  U+3000.
\<close>

definition isspace :: "codepoint \<Rightarrow> bool" where
  "isspace c \<longleftrightarrow>
     (0x09 \<le> c \<and> c \<le> 0x0D) \<or> (0x1C \<le> c \<and> c \<le> 0x20) \<or> c = 0x85 \<or> c = 0xA0 \<or>
     c = 0x1680 \<or> (0x2000 \<le> c \<and> c \<le> 0x200A) \<or> c = 0x2028 \<or> c = 0x2029 \<or>
     c = 0x202F \<or> c = 0x205F \<or> c = 0x3000"

text \<open>
  The character class of \<open>WORD_RE\<close> (line 70):
  \<open>[a-zA-Z\<close> U+0430-U+044F U+0410-U+042F U+0451 U+0401 U+0456 U+0406 U+0457 U+0407
  U+0454 U+0404 \<open>0-9']\<close>.
\<close>

definition word_char :: "codepoint \<Rightarrow> bool" where
  "word_char c \<longleftrightarrow>
     (0x61 \<le> c \<and> c \<le> 0x7A) \<or> (0x41 \<le> c \<and> c \<le> 0x5A) \<or>
     (0x430 \<le> c \<and> c \<le> 0x44F) \<or> (0x410 \<le> c \<and> c \<le> 0x42F) \<or>
     c = 0x451 \<or> c = 0x401 \<or> c = 0x456 \<or> c = 0x406 \<or>
     c = 0x457 \<or> c = 0x407 \<or> c = 0x454 \<or> c = 0x404 \<or>
     (0x30 \<le> c \<and> c \<le> 0x39) \<or> c = 0x27"

text \<open>
  \<open>str.lower\<close> is only ever applied to a match of \<open>WORD_RE\<close>, where it works character
  by character: \<open>A-Z\<close> and U+0410..U+042F move up by 32, the four letters U+0401,
  U+0404, U+0406, U+0407 move up by 80, every other character of the class is kept.
\<close>

definition lower_cp :: "codepoint \<Rightarrow> codepoint" where
  "lower_cp c =
     (if 0x41 \<le> c \<and> c \<le> 0x5A then c + 32
      else if 0x410 \<le> c \<and> c \<le> 0x42F then c + 32
      else if c = 0x401 \<or> c = 0x404 \<or> c = 0x406 \<or> c = 0x407 then c + 80
      else c)"

definition lower :: "str \<Rightarrow> str" where
  "lower s = map lower_cp s"

text \<open>
  Both \<open>str.split()\<close> and \<open>WORD_RE.finditer\<close> scan the string from the left, skip the
  characters outside a class and cut out each maximal run of characters inside it.
\<close>

function runs :: "('a \<Rightarrow> bool) \<Rightarrow> 'a list \<Rightarrow> 'a list list" where
  "runs P [] = []"
| "runs P (c # cs) =
     (if P c then (c # takeWhile P cs) # runs P (dropWhile P cs) else runs P cs)"
  by pat_completeness auto
termination
  by (relation "measure (\<lambda>(P, xs). length xs)")
     (auto simp: length_dropWhile_le less_Suc_eq_le)

definition str_split :: "str \<Rightarrow> str list" where
  "str_split s = runs (\<lambda>c. \<not> isspace c) s"

definition finditer :: "str \<Rightarrow> str list" where
  "finditer s = runs word_char s"

section \<open>Dictionaries in insertion order\<close>

text \<open>
  A Python \<open>dict\<close> (and so a \<open>defaultdict\<close> and a \<open>Counter\<close>) keeps its keys in the
  order of their first insertion, and \<open>most_common\<close> depends on that order. A dictionary
  is therefore the list of its items. \<open>d[k] = v\<close> overwrites the value of a key that is
  present, in place, and appends a new item otherwise.
\<close>

fun dict_set :: "'k \<Rightarrow> 'v \<Rightarrow> ('k \<times> 'v) list \<Rightarrow> ('k \<times> 'v) list" where
  "dict_set k v [] = [(k, v)]"
| "dict_set k v ((k', v') # rest) =
     (if k' = k then (k', v) # rest else (k', v') # dict_set k v rest)"

text \<open>\<open>dict(items)\<close>: the items are stored one after the other.\<close>

definition dict_of :: "('k \<times> 'v) list \<Rightarrow> ('k \<times> 'v) list" where
  "dict_of items = foldl (\<lambda>d (k, v). dict_set k v d) [] items"

text \<open>
  \<open>shuffled[key]\<close> on a \<open>defaultdict(list)\<close> is the stored list, or a new empty list
  for a missing key; reading a missing key of a \<open>Counter\<close> gives 0.
\<close>

definition defaultdict_get :: "('k \<times> 'v list) list \<Rightarrow> 'k \<Rightarrow> 'v list" where
  "defaultdict_get d k = (case map_of d k of None \<Rightarrow> [] | Some vs \<Rightarrow> vs)"

definition counter_get :: "('k \<times> int) list \<Rightarrow> 'k \<Rightarrow> int" where
  "counter_get d k = (case map_of d k of None \<Rightarrow> 0 | Some c \<Rightarrow> c)"

definition dict_keys :: "('k \<times> 'v) list \<Rightarrow> 'k list" where
  "dict_keys d = map fst d"

definition dict_values :: "('k \<times> 'v) list \<Rightarrow> 'v list" where
  "dict_values d = map snd d"

section \<open>Tokenising (lines 70-80)\<close>

definition DEFAULT_STOPWORDS :: "str set" where
  "DEFAULT_STOPWORDS = set
     (map cps [''the'', ''and'', ''a'', ''an'', ''of'', ''to'', ''in'', ''on'', ''is'', ''it'',
               ''that'', ''this''] @
      [[0x456], [0x439], [0x442, 0x430], [0x430], [0x430, 0x43B, 0x435],
       [0x430, 0x431, 0x43E], [0x449, 0x43E], [0x446, 0x435], [0x434, 0x43E],
       [0x432, 0x456, 0x434], [0x437, 0x430], [0x43D, 0x430], [0x443], [0x432],
       [0x437], [0x456, 0x437], [0x437, 0x456], [0x43F, 0x43E], [0x44F, 0x43A],
       [0x43D, 0x435], [0x454]])"

definition tokenize :: "str \<Rightarrow> str list" where
  "tokenize text = map lower (finditer text)"

section \<open>Map, shuffle, reduce (lines 86-105)\<close>

definition map_function :: "str \<Rightarrow> (str \<times> int) list" where
  "map_function text = map (\<lambda>word. (word, 1)) (str_split text)"

definition shuffle_function :: "('k \<times> 'v) list \<Rightarrow> ('k \<times> 'v list) list" where
  "shuffle_function mapped_values =
     foldl (\<lambda>shuffled (key, val).
              dict_set key (defaultdict_get shuffled key @ [val]) shuffled)
       [] mapped_values"

definition reduce_function :: "('k \<times> int list) list \<Rightarrow> ('k \<times> int) list" where
  "reduce_function shuffled_values =
     foldl (\<lambda>reduced (key, vals). dict_set key (sum_list vals) reduced)
       [] shuffled_values"

section \<open>Chunking (lines 108-117)\<close>

text \<open>
  \<open>range(start, stop, step)\<close> for a positive step, the only one \<open>chunk_text\<close> uses
  (\<open>step = max(1, ...)\<close>).
\<close>

function range3 :: "int \<Rightarrow> int \<Rightarrow> int \<Rightarrow> int list" where
  "range3 i stop step =
     (if 0 < step \<and> i < stop then i # range3 (i + step) stop step else [])"
  by pat_completeness auto
termination
  by (relation "measure (\<lambda>(i, stop, step). nat (stop - i))") auto

text \<open>
  The slice \<open>text[i:j]\<close> for indices \<open>0 \<le> i\<close> and \<open>0 \<le> j\<close>; \<open>chunk_text\<close> passes no
  negative index. An end beyond the string, or before the start, is not an error.
\<close>

definition slice :: "'a list \<Rightarrow> int \<Rightarrow> int \<Rightarrow> 'a list" where
  "slice s i j = take (nat j - nat i) (drop (nat i) s)"

definition chunk_text :: "str \<Rightarrow> int \<Rightarrow> str list" where
  "chunk_text text chunks =
     (if chunks \<le> 1 then [text]
      else let n = int (length text);
               step = max 1 (n div chunks)
           in map (\<lambda>i. slice text i (min n (i + step))) (range3 0 n step))"

section \<open>The pipeline (lines 120-159)\<close>

datatype error = ValueError

text \<open>
  \<open>ThreadPoolExecutor(max_workers=workers)\<close> raises \<open>ValueError\<close> for
  \<open>workers \<le> 0\<close>. Otherwise \<open>pool.map(f, parts)\<close> yields the results in the order of
  \<open>parts\<close>, whatever the order in which the threads finish; \<open>map_function\<close> itself
  raises nothing.
\<close>

definition pool_map :: "int \<Rightarrow> ('a \<Rightarrow> 'b) \<Rightarrow> 'a list \<Rightarrow> error + 'b list" where
  "pool_map max_workers f parts =
     (if max_workers \<le> 0 then Inl ValueError else Inr (map f parts))"

text \<open>Step 1: the pairs of all chunks, in the order of the chunks.\<close>

definition map_phase :: "str \<Rightarrow> int \<Rightarrow> error + (str \<times> int) list" where
  "map_phase text workers =
     (let parts = chunk_text text workers
      in case pool_map workers map_function parts of
           Inl e \<Rightarrow> Inl e
         | Inr mapped \<Rightarrow> Inr (concat mapped))"

text \<open>Steps 2 and 3: \<open>reduced\<close>, the counts of the raw tokens.\<close>

definition merged_table :: "(str \<times> int) list \<Rightarrow> (str \<times> int) list" where
  "merged_table mapped_all =
     (let shuffled = dict_of (shuffle_function mapped_all)
      in reduce_function shuffled)"

text \<open>Step 4: every raw token is tokenised again and its tokens are filtered.\<close>

definition counter_add :: "'k \<Rightarrow> int \<Rightarrow> ('k \<times> int) list \<Rightarrow> ('k \<times> int) list" where
  "counter_add t cnt normalized = dict_set t (counter_get normalized t + cnt) normalized"

definition passes :: "int \<Rightarrow> str set \<Rightarrow> str \<Rightarrow> bool" where
  "passes min_len stop t \<longleftrightarrow> min_len \<le> int (length t) \<and> t \<notin> stop"

text \<open>
  The body of the inner loop (lines 156-157), the body of the outer loop (lines 154-157)
  and the whole step.
\<close>

definition add_token :: "int \<Rightarrow> str set \<Rightarrow> int \<Rightarrow> (str \<times> int) list \<Rightarrow> str \<Rightarrow> (str \<times> int) list" where
  "add_token min_len stop cnt normalized t =
     (if passes min_len stop t then counter_add t cnt normalized else normalized)"

definition add_word :: "int \<Rightarrow> str set \<Rightarrow> (str \<times> int) list \<Rightarrow> str \<times> int \<Rightarrow> (str \<times> int) list" where
  "add_word min_len stop normalized item =
     (case item of (word, cnt) \<Rightarrow>
        let toks = tokenize word
        in foldl (add_token min_len stop cnt) normalized toks)"

definition stop_set :: "bool \<Rightarrow> str set" where
  "stop_set use_stopwords = (if use_stopwords then DEFAULT_STOPWORDS else {})"

definition normalize_table :: "(str \<times> int) list \<Rightarrow> int \<Rightarrow> bool \<Rightarrow> (str \<times> int) list" where
  "normalize_table reduced min_len use_stopwords =
     (let stop = stop_set use_stopwords
      in foldl (add_word min_len stop) [] reduced)"

definition map_reduce_parallel ::
    "str \<Rightarrow> int \<Rightarrow> int \<Rightarrow> bool \<Rightarrow> error + (str \<times> int) list" where
  "map_reduce_parallel text workers min_len use_stopwords =
     (case map_phase text workers of
        Inl e \<Rightarrow> Inl e
      | Inr mapped_all \<Rightarrow> Inr (normalize_table (merged_table mapped_all) min_len use_stopwords))"

section \<open>The top words (lines 165-175)\<close>

text \<open>
  \<open>Counter.most_common(n)\<close> is \<open>heapq.nlargest(n, items, key=count)\<close>, which returns
  what \<open>sorted(items, key=count, reverse=True)[:n]\<close> returns: the sort is stable, so
  items of equal count keep the order of the dictionary, and a negative \<open>n\<close> gives the
  empty list.
\<close>

definition most_common :: "('k \<times> int) list \<Rightarrow> int \<Rightarrow> ('k \<times> int) list" where
  "most_common freq n = take (nat n) (sort_key (\<lambda>item. - snd item) freq)"

text \<open>
  \<open>visualize_top_words\<close> draws the words and counts of \<open>top\<close>; with no data it logs a
  warning and returns. The model returns what is drawn.
\<close>

definition visualize_top_words :: "('k \<times> int) list \<Rightarrow> int \<Rightarrow> ('k list \<times> int list) option" where
  "visualize_top_words freq top_n =
     (let top = most_common freq top_n
      in if top = [] then None else Some (map fst top, map snd top))"

text \<open>
  The chunks of a list of chunks lie one after the other: chunk \<open>j\<close> starts at the
  offset where the chunks before it end.
\<close>

definition chunk_start :: "'a list list \<Rightarrow> nat \<Rightarrow> nat" where
  "chunk_start cs j = sum_list (map length (take j cs))"

text \<open>The number of tokens of a raw token that pass the filters.\<close>

definition kept :: "int \<Rightarrow> bool \<Rightarrow> str \<Rightarrow> nat" where
  "kept min_len use_stopwords word =
     length (filter (passes min_len (stop_set use_stopwords)) (tokenize word))"

text \<open>What every item of the returned table satisfies.\<close>

definition clean_item :: "int \<Rightarrow> str set \<Rightarrow> str \<times> int \<Rightarrow> bool" where
  "clean_item m stop item \<longleftrightarrow>
     (case item of (t, c) \<Rightarrow>
        t \<noteq> [] \<and> (\<forall>x\<in>set t. word_char x) \<and> lower t = t \<and> passes m stop t \<and> 1 \<le> c)"

text \<open>
  A boundary between two chunks falls on white space when the character before it or
  the character after it is white space, so that no word lies across it. (Two chunks
  with a boundary between them are never empty, see \<open>chunk_text_nonempty\<close> below.)
\<close>

fun whitespace_aligned :: "str list \<Rightarrow> bool" where
  "whitespace_aligned (a # b # rest) =
     (a \<noteq> [] \<and> b \<noteq> [] \<and> (isspace (last a) \<or> isspace (hd b)) \<and>
      whitespace_aligned (b # rest))"
| "whitespace_aligned _ = True"

section \<open>The thread pool, with the order of completion made explicit\<close>

text \<open>
  The only part of a run that the program does not order itself is the thread pool: the
  chunks are submitted in order, and the threads finish them in an order that may differ
  from run to run. A schedule is that order, the indices of the tasks as they finish.
  A finished task stores \<open>f(parts[i])\<close> in its own future; \<open>pool.map\<close> then yields the
  results of the futures in the order of submission, waiting for each of them, so a
  future that is never filled makes it wait for ever (\<open>None\<close>). In a fair schedule
  every submitted task finishes exactly once.
\<close>

definition finish_task :: "('a \<Rightarrow> 'b) \<Rightarrow> 'a list \<Rightarrow> (nat \<rightharpoonup> 'b) \<Rightarrow> nat \<Rightarrow> (nat \<rightharpoonup> 'b)" where
  "finish_task f parts futures i =
     (if i < length parts then futures(i \<mapsto> f (parts ! i)) else futures)"

definition run_tasks :: "nat list \<Rightarrow> ('a \<Rightarrow> 'b) \<Rightarrow> 'a list \<Rightarrow> (nat \<rightharpoonup> 'b)" where
  "run_tasks schedule f parts = foldl (finish_task f parts) Map.empty schedule"

fun collect :: "(nat \<rightharpoonup> 'b) \<Rightarrow> nat list \<Rightarrow> 'b list option" where
  "collect futures [] = Some []"
| "collect futures (i # rest) =
     (case futures i of
        None \<Rightarrow> None
      | Some r \<Rightarrow> (case collect futures rest of None \<Rightarrow> None | Some rs \<Rightarrow> Some (r # rs)))"

definition fair_schedule :: "nat list \<Rightarrow> nat \<Rightarrow> bool" where
  "fair_schedule schedule n \<longleftrightarrow> distinct schedule \<and> set schedule = set [0..<n]"

definition pool_map_scheduled ::
    "nat list \<Rightarrow> int \<Rightarrow> ('a \<Rightarrow> 'b) \<Rightarrow> 'a list \<Rightarrow> (error + 'b list) option" where
  "pool_map_scheduled schedule max_workers f parts =
     (if max_workers \<le> 0 then Some (Inl ValueError)
      else case collect (run_tasks schedule f parts) [0..<length parts] of
             None \<Rightarrow> None
           | Some results \<Rightarrow> Some (Inr results))"

text \<open>
  The run of \<open>main\<close> after the text is fetched, under a schedule: the table of
  \<open>map_reduce_parallel\<close> and the list \<open>top\<close> of \<open>visualize_top_words\<close>.
\<close>

definition pipeline_scheduled ::
    "nat list \<Rightarrow> str \<Rightarrow> int \<Rightarrow> int \<Rightarrow> bool \<Rightarrow> int
       \<Rightarrow> (error + (str \<times> int) list \<times> (str \<times> int) list) option" where
  "pipeline_scheduled schedule text workers min_len use_stopwords top_n =
     (let parts = chunk_text text workers
      in case pool_map_scheduled schedule workers map_function parts of
           None \<Rightarrow> None
         | Some (Inl e) \<Rightarrow> Some (Inl e)
         | Some (Inr mapped) \<Rightarrow>
             (let freq = normalize_table (merged_table (concat mapped)) min_len use_stopwords
              in Some (Inr (freq, most_common freq top_n))))"

text \<open>The same run with the results of the pool taken in the order of the chunks.\<close>

definition pipeline :: "str \<Rightarrow> int \<Rightarrow> int \<Rightarrow> bool \<Rightarrow> int
       \<Rightarrow> error + (str \<times> int) list \<times> (str \<times> int) list" where
  "pipeline text workers min_len use_stopwords top_n =
     (case map_reduce_parallel text workers min_len use_stopwords of
        Inl e \<Rightarrow> Inl e
      | Inr freq \<Rightarrow> Inr (freq, most_common freq top_n))"

section \<open>Chunks and runs\<close>

declare range3.simps [simp del]

lemma chunks_from:
  "0 < step \<Longrightarrow> 0 \<le> i \<Longrightarrow>
   concat (map (\<lambda>i. slice t i (min (int (length t)) (i + step))) (range3 i (int (length t)) step))
     = drop (nat i) t"
proof (induction i "int (length t)" step rule: range3.induct)
  case (1 i step)
  show ?case
  proof (cases "i < int (length t)")
    case True
    let ?j = "min (int (length t)) (i + step)"
    have rest: "concat (map (\<lambda>i. slice t i (min (int (length t)) (i + step)))
                  (range3 (i + step) (int (length t)) step)) = drop (nat (i + step)) t"
      using 1 True by simp
    have d: "drop (nat (i + step)) t = drop (nat ?j) t"
      by (cases "i + step \<le> int (length t)") (simp_all add: min_def)
    have le: "nat i \<le> nat ?j" using 1(2,3) True by linarith
    have "slice t i ?j @ drop (nat ?j) t = drop (nat i) t"
    proof -
      have e: "nat ?j - nat i + nat i = nat ?j"
        using le by simp
      have "take (nat ?j - nat i) (drop (nat i) t) @ drop (nat ?j - nat i) (drop (nat i) t)
              = drop (nat i) t"
        by (rule append_take_drop_id)
      then show ?thesis
        unfolding slice_def drop_drop e .
    qed
    with rest d True 1(2) show ?thesis
      by (subst range3.simps) simp
  next
    case False
    then show ?thesis by (subst range3.simps) simp
  qed
qed

lemma concat_chunk_text: "concat (chunk_text s chunks) = s"
proof (cases "chunks \<le> 1")
  case True
  then show ?thesis by (simp add: chunk_text_def)
next
  case False
  have "0 < max 1 (int (length s) div chunks)" by simp
  from chunks_from [OF this, of 0 s] False show ?thesis
    by (simp add: chunk_text_def Let_def)
qed

lemma nth_concat_slice:
  "j < length cs \<Longrightarrow>
   cs ! j = take (length (cs ! j)) (drop (sum_list (map length (take j cs))) (concat cs))"
proof (induction cs arbitrary: j)
  case Nil
  then show ?case by simp
next
  case (Cons c cs)
  then show ?case by (cases j) simp_all
qed

text \<open>With more than one chunk asked for, no chunk is empty.\<close>

lemma range3_bounds:
  "0 < step \<Longrightarrow> j \<in> set (range3 i stop step) \<Longrightarrow> i \<le> j \<and> j < stop"
proof (induction i stop step rule: range3.induct)
  case (1 i stop step)
  show ?case
  proof (cases "i < stop")
    case True
    with 1(2,3) have "j = i \<or> j \<in> set (range3 (i + step) stop step)"
      by (subst (asm) range3.simps) simp
    then show ?thesis
    proof
      assume "j = i"
      with True show ?thesis by simp
    next
      assume "j \<in> set (range3 (i + step) stop step)"
      with 1(1) 1(2) True have "i + step \<le> j \<and> j < stop" by simp
      with 1(2) show ?thesis by simp
    qed
  next
    case False
    with 1(3) show ?thesis by (subst (asm) range3.simps) simp
  qed
qed

lemma chunk_text_nonempty:
  assumes "1 < chunks" and "c \<in> set (chunk_text s chunks)"
  shows "c \<noteq> []"
proof -
  let ?n = "int (length s)"
  let ?step = "max 1 (?n div chunks)"
  from assms obtain j where j: "j \<in> set (range3 0 ?n ?step)"
    and c: "c = slice s j (min ?n (j + ?step))"
    by (auto simp: chunk_text_def Let_def)
  define st where "st = ?step"
  have st: "0 < st" by (simp add: st_def)
  from range3_bounds [OF st j [folded st_def]] have j0: "0 \<le> j" and jn: "j < ?n"
    by simp_all
  define e where "e = min ?n (j + st)"
  from st jn have je: "j < e" and en: "e \<le> ?n"
    by (simp_all add: e_def)
  from j0 je en have "nat j < nat e" and "nat e \<le> length s"
    by linarith+
  then have "0 < length (slice s j e)"
    by (simp add: slice_def)
  with c show ?thesis
    by (auto simp: e_def st_def)
qed

lemma runs_elem: "r \<in> set (runs P xs) \<Longrightarrow> r \<noteq> [] \<and> (\<forall>c\<in>set r. P c)"
proof (induction P xs rule: runs.induct)
  case (1 P)
  then show ?case by simp
next
  case (2 P c cs)
  show ?case
  proof (cases "P c")
    case False
    with 2(2,3) show ?thesis by simp
  next
    case True
    with 2(3) have "r = c # takeWhile P cs \<or> r \<in> set (runs P (dropWhile P cs))"
      by simp
    then show ?thesis
    proof
      assume r: "r = c # takeWhile P cs"
      have "\<forall>x\<in>set (takeWhile P cs). P x"
        by (blast dest: set_takeWhileD)
      with r True show ?thesis by simp
    next
      assume "r \<in> set (runs P (dropWhile P cs))"
      with 2(1) True show ?thesis by blast
    qed
  qed
qed

lemma runs_append_space:
  "\<not> P b \<Longrightarrow> runs P (a @ b # bs) = runs P a @ runs P (b # bs)"
proof (induction P a rule: runs.induct)
  case (1 P)
  then show ?case by simp
next
  case (2 P c cs)
  show ?case
  proof (cases "P c")
    case False
    with 2 show ?thesis by simp
  next
    case True
    show ?thesis
    proof (cases "\<forall>x\<in>set cs. P x")
      case all: True
      then have "takeWhile P (cs @ b # bs) = cs" "dropWhile P (cs @ b # bs) = b # bs"
        "takeWhile P cs = cs" "dropWhile P cs = []"
        using 2(3) by (simp_all add: takeWhile_tail dropWhile_append3)
      then show ?thesis using True 2(3) by (simp del: takeWhile_eq_all_conv dropWhile_eq_Nil_conv)
    next
      case False
      then obtain x where x: "x \<in> set cs" "\<not> P x" by blast
      then have tw: "takeWhile P (cs @ b # bs) = takeWhile P cs"
        and dw: "dropWhile P (cs @ b # bs) = dropWhile P cs @ b # bs"
        by (simp_all add: takeWhile_append1 dropWhile_append1)
      from 2(1) [OF True 2(3)] True tw dw show ?thesis by simp
    qed
  qed
qed


text \<open>
  C4. For every text and every chunk count, the chunks of \<open>chunk_text\<close> concatenated
  in order give back the text exactly, and chunk \<open>j\<close> is the slice of the text from
  the end of chunk \<open>j - 1\<close> (offset 0 for the first) to its own end: the chunks are
  contiguous slices that do not overlap.
\<close>

theorem chunk_text_partition:
  "concat (chunk_text s chunks) = s \<and>
   (\<forall>j < length (chunk_text s chunks).
      chunk_text s chunks ! j =
        slice s (int (chunk_start (chunk_text s chunks) j))
                (int (chunk_start (chunk_text s chunks) (Suc j))))"
proof (intro conjI allI impI)
  show "concat (chunk_text s chunks) = s"
    by (rule concat_chunk_text)
next
  fix j
  let ?cs = "chunk_text s chunks"
  assume j: "j < length ?cs"
  have nxt: "chunk_start ?cs (Suc j) = chunk_start ?cs j + length (?cs ! j)"
    using j by (simp add: chunk_start_def take_Suc_conv_app_nth)
  have "?cs ! j = take (length (?cs ! j)) (drop (chunk_start ?cs j) (concat ?cs))"
    unfolding chunk_start_def using j by (rule nth_concat_slice)
  then have "?cs ! j = take (length (?cs ! j)) (drop (chunk_start ?cs j) s)"
    by (simp only: concat_chunk_text)
  moreover have "nat (int (chunk_start ?cs (Suc j))) - nat (int (chunk_start ?cs j))
                   = length (?cs ! j)"
    by (simp add: nxt)
  ultimately show "?cs ! j = slice s (int (chunk_start ?cs j)) (int (chunk_start ?cs (Suc j)))"
    by (simp only: slice_def nat_int)
qed

theorem chunk_text_partition_witness:
  "concat (chunk_text (cps ''abcdefghij'') 3) = cps ''abcdefghij'' \<and>
   3 < length (chunk_text (cps ''abcdefghij'') 3) \<and>
   chunk_text (cps ''abcdefghij'') 3 ! 3 = slice (cps ''abcdefghij'') 9 10"
proof -
  have len: "3 < length (chunk_text (cps ''abcdefghij'') 3)"
    by code_simp
  have st: "chunk_start (chunk_text (cps ''abcdefghij'') 3) 3 = 9"
    "chunk_start (chunk_text (cps ''abcdefghij'') 3) (Suc 3) = 10"
    by code_simp+
  from chunk_text_partition [of "cps ''abcdefghij''" 3] len st show ?thesis
    by simp
qed

section \<open>Small inputs\<close>

lemma chunk_text_le1: "chunks \<le> 1 \<Longrightarrow> chunk_text s chunks = [s]"
  by (simp add: chunk_text_def)

lemma chunk_text_empty: "1 < chunks \<Longrightarrow> chunk_text [] chunks = []"
  by (simp add: chunk_text_def range3.simps)

lemma merged_table_Nil: "merged_table [] = []"
  by (simp add: merged_table_def shuffle_function_def dict_of_def reduce_function_def)

lemma normalize_Nil: "normalize_table [] min_len use_stopwords = []"
  by (simp add: normalize_table_def)

lemma map_phase_empty: "1 \<le> workers \<Longrightarrow> map_phase [] workers = Inr []"
  by (cases "workers = 1")
     (simp_all add: map_phase_def pool_map_def chunk_text_le1 chunk_text_empty
        map_function_def str_split_def)

lemma map_phase_single: "map_phase s 1 = Inr (map_function s)"
  by (simp add: map_phase_def pool_map_def chunk_text_le1)

lemma map_phase_no_workers: "workers \<le> 0 \<Longrightarrow> map_phase s workers = Inl ValueError"
  by (simp add: map_phase_def pool_map_def)

text \<open>
  C2. The docstring of \<open>chunk_text\<close> promises \<open>N\<close> substrings for \<open>N\<close> chunks. The
  stride is \<open>len(text) // chunks\<close>, and what is left after \<open>chunks\<close> strides becomes
  a chunk of its own instead of joining the last one: ten characters and three chunks
  give four chunks.
\<close>

theorem chunk_text_ten_by_three:
  "chunk_text (cps ''abcdefghij'') 3 = [cps ''abc'', cps ''def'', cps ''ghi'', cps ''j''] \<and>
   length (chunk_text (cps ''abcdefghij'') 3) = 4"
  by code_simp

text \<open>
  C5. On the empty text, with at least one worker and any minimal length, stop-word
  switch and \<open>top_n\<close>, the run returns the empty table rather than an error, the top
  words are the empty list, and \<open>visualize_top_words\<close> draws nothing.
\<close>

theorem empty_input:
  "1 \<le> workers \<Longrightarrow>
   map_reduce_parallel [] workers min_len use_stopwords = Inr [] \<and>
   most_common ([] :: (str \<times> int) list) top_n = [] \<and>
   visualize_top_words ([] :: (str \<times> int) list) top_n = None"
  by (simp add: map_reduce_parallel_def map_phase_empty merged_table_Nil normalize_Nil
        most_common_def visualize_top_words_def)

theorem empty_input_witness:
  "(1::int) \<le> 8 \<and> map_reduce_parallel (cps '''') 8 2 True = Inr [] \<and>
   most_common ([] :: (str \<times> int) list) 10 = [] \<and>
   visualize_top_words ([] :: (str \<times> int) list) 10 = None"
  using empty_input [of 8 2 True 10] by (simp add: cps_def)

text \<open>
  C6. The text \<open>the cat sat on the mat the cat ran\<close> with one worker, minimal length 1
  and no stop words gives the table the:3, cat:2, sat:1, on:1, mat:1, ran:1, and its
  two most common items are (the, 3) and (cat, 2).
\<close>

theorem example_run:
  "map_reduce_parallel (cps ''the cat sat on the mat the cat ran'') 1 1 False =
     Inr [(cps ''the'', 3), (cps ''cat'', 2), (cps ''sat'', 1), (cps ''on'', 1),
          (cps ''mat'', 1), (cps ''ran'', 1)] \<and>
   most_common [(cps ''the'', 3), (cps ''cat'', 2), (cps ''sat'', 1), (cps ''on'', 1),
          (cps ''mat'', 1), (cps ''ran'', 1)] 2 = [(cps ''the'', 3), (cps ''cat'', 2)]"
  by code_simp

text \<open>
  C10, as the code has it. \<open>chunk_text\<close> with a chunk count of at most 1 (zero and
  negative counts too) returns the whole text as its only chunk, and
  \<open>map_reduce_parallel\<close> with one worker is the run over that single chunk. With zero
  or fewer workers the thread pool refuses its size and the run ends in \<open>ValueError\<close>.
\<close>

theorem single_chunk_run:
  "(chunks \<le> 1 \<longrightarrow> chunk_text s chunks = [s]) \<and>
   map_reduce_parallel s 1 min_len use_stopwords =
     Inr (normalize_table (merged_table (map_function s)) min_len use_stopwords) \<and>
   (workers \<le> 0 \<longrightarrow> map_reduce_parallel s workers min_len use_stopwords = Inl ValueError)"
  by (simp add: chunk_text_le1 map_reduce_parallel_def map_phase_single map_phase_no_workers)

theorem single_chunk_run_witness:
  "(0::int) \<le> 1 \<and> chunk_text (cps ''the cat'') 0 = [cps ''the cat''] \<and>
   map_reduce_parallel (cps ''the cat'') 1 1 False =
     Inr (normalize_table (merged_table (map_function (cps ''the cat''))) 1 False) \<and>
   (-2::int) \<le> 0 \<and> map_reduce_parallel (cps ''the cat'') (-2) 1 False = Inl ValueError"
  using single_chunk_run [where chunks = 0 and s = "cps ''the cat''" and min_len = 1
      and use_stopwords = False and workers = "-2"]
  by simp

text \<open>
  C10 as it was stated fails for zero workers: the chunker returns the single
  chunk, and the run still fails.
\<close>

theorem zero_workers_counterexample:
  "chunk_text (cps ''the cat'') 0 = [cps ''the cat''] \<and>
   map_reduce_parallel (cps ''the cat'') 0 1 False = Inl ValueError"
  by code_simp

section \<open>Dictionaries, sums and counts\<close>

lemma set_dict_set:
  "set (dict_set k v d) \<subseteq> insert (k, v) (set d)"
  by (induction d) (auto split: if_splits)

lemma sum_dict_set:
  "sum_list (map snd (dict_set k v d)) = sum_list (map snd d) - counter_get d k + v"
  by (induction d) (auto simp: counter_get_def)

lemma sum_counter_add:
  "sum_list (dict_values (counter_add t cnt d)) = sum_list (dict_values d) + cnt"
  by (simp add: counter_add_def dict_values_def sum_dict_set)

lemma defaultdict_get_cases:
  "defaultdict_get d k = [] \<or> (k, defaultdict_get d k) \<in> set d"
  by (auto simp: defaultdict_get_def split: option.splits dest: map_of_SomeD)

lemma counter_get_cases:
  "counter_get d k = 0 \<or> (k, counter_get d k) \<in> set d"
  by (auto simp: counter_get_def split: option.splits dest: map_of_SomeD)

lemma sum_add_tokens:
  "sum_list (dict_values (foldl (add_token m stop cnt) d toks))
     = sum_list (dict_values d) + cnt * int (length (filter (passes m stop) toks))"
  by (induction toks arbitrary: d) (simp_all add: add_token_def sum_counter_add algebra_simps)

lemma sum_add_words:
  "sum_list (dict_values (foldl (add_word m stop) d reduced))
     = sum_list (dict_values d)
       + sum_list (map (\<lambda>(word, cnt). cnt * int (length (filter (passes m stop) (tokenize word)))) reduced)"
  by (induction reduced arbitrary: d)
     (simp_all add: add_word_def sum_add_tokens split: prod.splits)

lemma sum_normalize:
  "sum_list (dict_values (normalize_table reduced m u))
     = sum_list (map (\<lambda>(word, cnt). cnt * int (length (filter (passes m (stop_set u)) (tokenize word)))) reduced)"
  using sum_add_words [of m "stop_set u" "[]" reduced]
  by (simp add: normalize_table_def dict_values_def)

lemma shuffle_step_inv:
  assumes "\<forall>(k, vs)\<in>set d. vs \<noteq> [] \<and> (\<forall>v\<in>set vs. v = (1::int))"
  shows "\<forall>(k, vs)\<in>set (dict_set key (defaultdict_get d key @ [1]) d).
           vs \<noteq> [] \<and> (\<forall>v\<in>set vs. v = 1)"
proof -
  have new: "\<forall>v\<in>set (defaultdict_get d key @ [1]). v = 1"
    using defaultdict_get_cases [of d key] assms by auto
  show ?thesis
  proof (intro ballI, clarify)
    fix k vs
    assume "(k, vs) \<in> set (dict_set key (defaultdict_get d key @ [1]) d)"
    with set_dict_set [of key "defaultdict_get d key @ [1]" d]
    have "(k, vs) = (key, defaultdict_get d key @ [1]) \<or> (k, vs) \<in> set d"
      by blast
    then show "vs \<noteq> [] \<and> (\<forall>v\<in>set vs. v = 1)"
      using new assms by auto
  qed
qed

lemma shuffle_fold_inv:
  "\<forall>p\<in>set mapped. snd p = (1::int) \<Longrightarrow>
   \<forall>(k, vs)\<in>set d. vs \<noteq> [] \<and> (\<forall>v\<in>set vs. v = 1) \<Longrightarrow>
   \<forall>(k, vs)\<in>set (foldl (\<lambda>shuffled (key, val).
              dict_set key (defaultdict_get shuffled key @ [val]) shuffled) d mapped).
      vs \<noteq> [] \<and> (\<forall>v\<in>set vs. v = 1)"
proof (induction mapped arbitrary: d)
  case Nil
  then show ?case by simp
next
  case (Cons p mapped)
  obtain key val where p: "p = (key, val)" by (cases p)
  with Cons.prems(1) have val: "val = 1" by simp
  have "\<forall>(k, vs)\<in>set (dict_set key (defaultdict_get d key @ [1]) d).
           vs \<noteq> [] \<and> (\<forall>v\<in>set vs. v = 1)"
    using Cons.prems(2) by (rule shuffle_step_inv)
  with Cons.IH [of "dict_set key (defaultdict_get d key @ [1]) d"] Cons.prems(1)
  show ?case by (simp add: p val)
qed

lemma set_dict_of_fold:
  "set (foldl (\<lambda>d (k, v). dict_set k v d) acc items) \<subseteq> set acc \<union> set items"
proof (induction items arbitrary: acc)
  case Nil
  then show ?case by simp
next
  case (Cons p items)
  obtain k v where p: "p = (k, v)" by (cases p)
  from Cons.IH [of "dict_set k v acc"] set_dict_set [of k v acc]
  show ?case by (auto simp: p)
qed

lemma set_reduce_fold:
  "set (foldl (\<lambda>reduced (key, vals). dict_set key (sum_list vals) reduced) acc sh)
     \<subseteq> set acc \<union> (\<lambda>(k, vs). (k, sum_list vs)) ` set sh"
proof (induction sh arbitrary: acc)
  case Nil
  then show ?case by simp
next
  case (Cons p sh)
  obtain k vs where p: "p = (k, vs)" by (cases p)
  from Cons.IH [of "dict_set k (sum_list vs) acc"] set_dict_set [of k "sum_list vs" acc]
  show ?case by (auto simp: p)
qed

lemma sum_list_ones: "\<forall>v\<in>set vs. v = (1::int) \<Longrightarrow> sum_list vs = int (length vs)"
  by (induction vs) simp_all

lemma merged_table_counts:
  assumes ones: "\<forall>p\<in>set mapped. snd p = 1"
    and item: "(word, cnt) \<in> set (merged_table mapped)"
  shows "1 \<le> cnt"
proof -
  let ?sh = "shuffle_function mapped"
  have inv: "\<forall>(k, vs)\<in>set ?sh. vs \<noteq> [] \<and> (\<forall>v\<in>set vs. v = 1)"
    unfolding shuffle_function_def using ones by (rule shuffle_fold_inv) simp
  from item set_reduce_fold [of "[]" "dict_of ?sh"]
  obtain vs where vs: "(word, vs) \<in> set (dict_of ?sh)" and cnt: "cnt = sum_list vs"
    by (auto simp: merged_table_def reduce_function_def)
  from vs set_dict_of_fold [of "[]" ?sh] have "(word, vs) \<in> set ?sh"
    by (auto simp: dict_of_def)
  with inv have "vs \<noteq> []" and "\<forall>v\<in>set vs. v = 1" by auto
  then show ?thesis
    using sum_list_ones [of vs] cnt by (cases vs) simp_all
qed

lemma map_phase_ones:
  "map_phase s workers = Inr mapped \<Longrightarrow> \<forall>p\<in>set mapped. snd p = 1"
  by (auto simp: map_phase_def pool_map_def map_function_def split: if_splits)


text \<open>
  C1, as the code has it. When the map phase succeeds, the values of the returned
  table sum to the sum, over the items (word, count) of the merged table, of count
  times the number of tokens of the word that pass the filters; so the sum is at most
  the sum of the merged table whenever no raw token holds more than one passing
  token.
\<close>

theorem normalized_mass:
  assumes "map_phase s workers = Inr mapped_all"
  shows "map_reduce_parallel s workers min_len use_stopwords =
           Inr (normalize_table (merged_table mapped_all) min_len use_stopwords) \<and>
         sum_list (dict_values (normalize_table (merged_table mapped_all) min_len use_stopwords)) =
           sum_list (map (\<lambda>(word, cnt). cnt * int (kept min_len use_stopwords word))
                      (merged_table mapped_all)) \<and>
         ((\<forall>word\<in>set (dict_keys (merged_table mapped_all)).
              kept min_len use_stopwords word \<le> 1) \<longrightarrow>
          sum_list (dict_values (normalize_table (merged_table mapped_all) min_len use_stopwords))
            \<le> sum_list (dict_values (merged_table mapped_all)))"
proof (intro conjI impI)
  show "map_reduce_parallel s workers min_len use_stopwords =
          Inr (normalize_table (merged_table mapped_all) min_len use_stopwords)"
    using assms by (simp add: map_reduce_parallel_def)
next
  show "sum_list (dict_values (normalize_table (merged_table mapped_all) min_len use_stopwords)) =
          sum_list (map (\<lambda>(word, cnt). cnt * int (kept min_len use_stopwords word))
                     (merged_table mapped_all))"
    by (simp add: sum_normalize kept_def)
next
  let ?merged = "merged_table mapped_all"
  assume one: "\<forall>word\<in>set (dict_keys ?merged). kept min_len use_stopwords word \<le> 1"
  have "sum_list (map (\<lambda>(word, cnt). cnt * int (kept min_len use_stopwords word)) ?merged)
          \<le> sum_list (map snd ?merged)"
  proof (rule sum_list_mono)
    fix item
    assume item: "item \<in> set ?merged"
    obtain word cnt where wc: "item = (word, cnt)" by (cases item)
    from item wc have "1 \<le> cnt"
      using merged_table_counts [OF map_phase_ones [OF assms]] by blast
    moreover from item wc one have "kept min_len use_stopwords word \<le> 1"
      by (force simp: dict_keys_def)
    ultimately have "cnt * int (kept min_len use_stopwords word) \<le> cnt"
      by (simp add: mult_left_le)
    then show "(case item of (word, cnt) \<Rightarrow> cnt * int (kept min_len use_stopwords word))
                 \<le> snd item"
      by (simp add: wc)
  qed
  then show "sum_list (dict_values (normalize_table ?merged min_len use_stopwords))
               \<le> sum_list (dict_values ?merged)"
    using sum_normalize [of ?merged min_len use_stopwords]
    by (simp add: kept_def dict_values_def)
qed

theorem normalized_mass_witness:
  "map_phase (cps ''the cat, the'') 2 =
     Inr [(cps ''the'', 1), (cps ''ca'', 1), (cps ''t,'', 1), (cps ''the'', 1)] \<and>
   map (kept 1 True) (dict_keys (merged_table
        [(cps ''the'', 1), (cps ''ca'', 1), (cps ''t,'', 1), (cps ''the'', 1)])) = [0, 1, 1] \<and>
   sum_list (dict_values (normalize_table (merged_table
        [(cps ''the'', 1), (cps ''ca'', 1), (cps ''t,'', 1), (cps ''the'', 1)]) 1 True))
     \<le> sum_list (dict_values (merged_table
        [(cps ''the'', 1), (cps ''ca'', 1), (cps ''t,'', 1), (cps ''the'', 1)]))"
proof -
  have mp: "map_phase (cps ''the cat, the'') 2 =
     Inr [(cps ''the'', 1), (cps ''ca'', 1), (cps ''t,'', 1), (cps ''the'', 1)]"
    by code_simp
  have one: "\<forall>word\<in>set (dict_keys (merged_table
        [(cps ''the'', 1), (cps ''ca'', 1), (cps ''t,'', 1), (cps ''the'', 1)])).
      kept 1 True word \<le> 1"
    by code_simp
  have ks: "map (kept 1 True) (dict_keys (merged_table
        [(cps ''the'', 1), (cps ''ca'', 1), (cps ''t,'', 1), (cps ''the'', 1)])) = [0, 1, 1]"
    by code_simp
  from normalized_mass [OF mp, of 1 True] one mp ks show ?thesis
    by blast
qed

text \<open>
  C1 as it was stated fails on the text \<open>a-b\<close>: the one raw token \<open>a-b\<close> holds
  the two tokens \<open>a\<close> and \<open>b\<close>, so the merged table sums to 1 and the returned table
  to 2.
\<close>

theorem normalized_mass_counterexample:
  "map_phase (cps ''a-b'') 1 = Inr [(cps ''a-b'', 1)] \<and>
   map_reduce_parallel (cps ''a-b'') 1 1 False =
     Inr (normalize_table (merged_table [(cps ''a-b'', 1)]) 1 False) \<and>
   \<not> sum_list (dict_values (normalize_table (merged_table [(cps ''a-b'', 1)]) 1 False))
       \<le> sum_list (dict_values (merged_table [(cps ''a-b'', 1)]))"
  by code_simp

section \<open>The keys of the returned table\<close>

lemma lower_word_char:
  "word_char c \<Longrightarrow> word_char (lower_cp c) \<and> lower_cp (lower_cp c) = lower_cp c"
  unfolding word_char_def lower_cp_def by (elim disjE) simp_all

lemma tokenize_elem:
  assumes "t \<in> set (tokenize w)"
  shows "t \<noteq> [] \<and> (\<forall>c\<in>set t. word_char c) \<and> lower t = t"
proof -
  from assms obtain r where r: "r \<in> set (runs word_char w)" and t: "t = lower r"
    by (auto simp: tokenize_def finditer_def)
  from runs_elem [OF r] have ne: "r \<noteq> []" and wc: "\<forall>c\<in>set r. word_char c"
    by simp_all
  from wc have "\<forall>c\<in>set r. word_char (lower_cp c) \<and> lower_cp (lower_cp c) = lower_cp c"
    using lower_word_char by blast
  with ne show ?thesis by (simp add: t lower_def)
qed

lemma add_token_clean:
  assumes d: "\<forall>item\<in>set d. clean_item m stop item"
    and cnt: "1 \<le> cnt"
    and t: "t \<noteq> [] \<and> (\<forall>x\<in>set t. word_char x) \<and> lower t = t"
  shows "\<forall>item\<in>set (add_token m stop cnt d t). clean_item m stop item"
proof (cases "passes m stop t")
  case False
  with d show ?thesis by (simp add: add_token_def)
next
  case True
  have "1 \<le> counter_get d t + cnt"
    using counter_get_cases [of d t] d cnt by (auto simp: clean_item_def)
  with True t have new: "clean_item m stop (t, counter_get d t + cnt)"
    by (simp add: clean_item_def)
  show ?thesis
  proof
    fix item
    assume "item \<in> set (add_token m stop cnt d t)"
    with True set_dict_set [of t "counter_get d t + cnt" d]
    have "item = (t, counter_get d t + cnt) \<or> item \<in> set d"
      by (auto simp: add_token_def counter_add_def)
    with new d show "clean_item m stop item" by blast
  qed
qed

lemma add_tokens_clean:
  "\<forall>item\<in>set d. clean_item m stop item \<Longrightarrow> 1 \<le> cnt \<Longrightarrow>
   \<forall>t\<in>set toks. t \<noteq> [] \<and> (\<forall>x\<in>set t. word_char x) \<and> lower t = t \<Longrightarrow>
   \<forall>item\<in>set (foldl (add_token m stop cnt) d toks). clean_item m stop item"
proof (induction toks arbitrary: d)
  case Nil
  then show ?case by simp
next
  case (Cons t toks)
  have "\<forall>item\<in>set (add_token m stop cnt d t). clean_item m stop item"
    using Cons.prems by (intro add_token_clean) simp_all
  with Cons.IH [of "add_token m stop cnt d t"] Cons.prems show ?case by simp
qed

lemma add_words_clean:
  "\<forall>item\<in>set d. clean_item m stop item \<Longrightarrow> \<forall>(w, c)\<in>set reduced. 1 \<le> c \<Longrightarrow>
   \<forall>item\<in>set (foldl (add_word m stop) d reduced). clean_item m stop item"
proof (induction reduced arbitrary: d)
  case Nil
  then show ?case by simp
next
  case (Cons p reduced)
  obtain w c where p: "p = (w, c)" by (cases p)
  with Cons.prems(2) have c: "1 \<le> c" by simp
  have "\<forall>item\<in>set (foldl (add_token m stop c) d (tokenize w)). clean_item m stop item"
    using Cons.prems(1) c tokenize_elem by (intro add_tokens_clean) blast+
  then have "\<forall>item\<in>set (add_word m stop d p). clean_item m stop item"
    by (simp add: add_word_def p)
  with Cons.IH [of "add_word m stop d p"] Cons.prems(2) show ?case by simp
qed

lemma normalize_clean:
  "\<forall>(w, c)\<in>set reduced. 1 \<le> c \<Longrightarrow>
   \<forall>item\<in>set (normalize_table reduced m u). clean_item m (stop_set u) item"
  unfolding normalize_table_def Let_def by (rule add_words_clean) simp_all

text \<open>
  C9. Every key of the table that \<open>map_reduce_parallel\<close> returns is its own lower-case
  form, is not empty, consists of characters of the class of \<open>WORD_RE\<close>, is at least
  \<open>min_len\<close> long and, when stop words are in use, is no stop word; and its count is
  at least 1.
\<close>

theorem normalized_keys_clean:
  assumes run: "map_reduce_parallel s workers min_len use_stopwords = Inr normalized"
    and item: "(t, cnt) \<in> set normalized"
  shows "lower t = t \<and> t \<noteq> [] \<and> (\<forall>c\<in>set t. word_char c) \<and> min_len \<le> int (length t) \<and>
         (use_stopwords \<longrightarrow> t \<notin> DEFAULT_STOPWORDS) \<and> 1 \<le> cnt"
proof -
  from run obtain mapped where mp: "map_phase s workers = Inr mapped"
    and n: "normalized = normalize_table (merged_table mapped) min_len use_stopwords"
    by (auto simp: map_reduce_parallel_def split: sum.splits)
  have "\<forall>(w, c)\<in>set (merged_table mapped). 1 \<le> c"
    using merged_table_counts [OF map_phase_ones [OF mp]] by blast
  then have "\<forall>item\<in>set normalized. clean_item min_len (stop_set use_stopwords) item"
    unfolding n by (rule normalize_clean)
  with item have "clean_item min_len (stop_set use_stopwords) (t, cnt)" by blast
  then show ?thesis
    by (auto simp: clean_item_def passes_def stop_set_def split: if_splits)
qed

theorem normalized_keys_clean_witness:
  "map_reduce_parallel (cps ''The cat, THE Cat on'') 3 1 True =
     Inr [(cps ''ca'', 1), (cps ''t'', 1), (cps ''cat'', 1), (cps ''o'', 1), (cps ''n'', 1)] \<and>
   lower (cps ''cat'') = cps ''cat'' \<and> cps ''cat'' \<noteq> [] \<and>
   list_all word_char (cps ''cat'') \<and> (1::int) \<le> int (length (cps ''cat'')) \<and>
   cps ''cat'' \<notin> DEFAULT_STOPWORDS \<and> (1::int) \<le> 1"
proof -
  have run: "map_reduce_parallel (cps ''The cat, THE Cat on'') 3 1 True =
     Inr [(cps ''ca'', 1), (cps ''t'', 1), (cps ''cat'', 1), (cps ''o'', 1), (cps ''n'', 1)]"
    by code_simp
  have item: "(cps ''cat'', 1) \<in>
     set [(cps ''ca'', 1), (cps ''t'', 1), (cps ''cat'', 1), (cps ''o'', 1), (cps ''n'', 1::int)]"
    by simp
  from normalized_keys_clean [OF run item] run show ?thesis
    by (simp add: list_all_iff)
qed

section \<open>Chunk boundaries on white space\<close>

lemma runs_append_aligned:
  assumes "a \<noteq> []" "b \<noteq> []" "\<not> P (last a) \<or> \<not> P (hd b)"
  shows "runs P (a @ b) = runs P a @ runs P b"
proof (cases "P (hd b)")
  case False
  from assms(2) obtain x b' where b: "b = x # b'" by (cases b) auto
  with False have "\<not> P x" by simp
  then show ?thesis unfolding b by (rule runs_append_space)
next
  case True
  with assms(3) have l: "\<not> P (last a)" by blast
  from assms(1) obtain a' x where a: "a = a' @ [x]" by (cases a rule: rev_cases) auto
  with l have x: "\<not> P x" by simp
  have "runs P (a' @ x # b) = runs P a' @ runs P (x # b)"
    using x by (rule runs_append_space)
  moreover have "runs P (a' @ [x]) = runs P a' @ runs P [x]"
    using x by (rule runs_append_space)
  ultimately show ?thesis using x by (simp add: a)
qed

lemma split_aligned_chunks:
  "whitespace_aligned cs \<Longrightarrow> concat (map str_split cs) = str_split (concat cs)"
proof (induction cs rule: whitespace_aligned.induct)
  case (1 a b rest)
  then have a: "a \<noteq> []" and b: "b \<noteq> []"
    and ws: "isspace (last a) \<or> isspace (hd b)"
    and rest: "whitespace_aligned (b # rest)"
    by simp_all
  have "str_split (a @ (b @ concat rest)) = str_split a @ str_split (b @ concat rest)"
    unfolding str_split_def
    using a b ws by (intro runs_append_aligned) simp_all
  with 1(1) [OF rest] show ?case by simp
qed (simp_all add: str_split_def)

lemma map_function_aligned_chunks:
  assumes "whitespace_aligned cs"
  shows "concat (map map_function cs) = map_function (concat cs)"
proof -
  have "concat (map map_function cs) = map (\<lambda>word. (word, 1)) (concat (map str_split cs))"
    by (induction cs) (simp_all add: map_function_def)
  with split_aligned_chunks [OF assms] show ?thesis
    by (simp add: map_function_def)
qed

lemma map_phase_aligned:
  "1 \<le> workers \<Longrightarrow> whitespace_aligned (chunk_text s workers) \<Longrightarrow>
   map_phase s workers = Inr (map_function s)"
  by (simp add: map_phase_def pool_map_def map_function_aligned_chunks concat_chunk_text)

text \<open>
  C3. For every text and every two worker counts \<open>w1 \<ge> 1\<close> and \<open>w2 \<ge> 1\<close> whose chunk
  boundaries all fall on white space, the runs with \<open>w1\<close> and with \<open>w2\<close> workers (same
  \<open>min_len\<close> and \<open>use_stopwords\<close>) return the same table; it is the table of the run
  over the unchunked text.
\<close>

theorem worker_count_independence:
  assumes "1 \<le> w1" and "1 \<le> w2"
    and "whitespace_aligned (chunk_text s w1)" and "whitespace_aligned (chunk_text s w2)"
  shows "map_reduce_parallel s w1 min_len use_stopwords =
           map_reduce_parallel s w2 min_len use_stopwords \<and>
         map_reduce_parallel s w1 min_len use_stopwords =
           Inr (normalize_table (merged_table (map_function s)) min_len use_stopwords)"
  using assms by (simp add: map_reduce_parallel_def map_phase_aligned)

theorem worker_count_independence_witness:
  "(1::int) \<le> 2 \<and> (1::int) \<le> 3 \<and>
   whitespace_aligned (chunk_text (cps ''a b c d'') 2) \<and>
   whitespace_aligned (chunk_text (cps ''a b c d'') 3) \<and>
   map_reduce_parallel (cps ''a b c d'') 2 1 True = map_reduce_parallel (cps ''a b c d'') 3 1 True"
proof -
  have a2: "whitespace_aligned (chunk_text (cps ''a b c d'') 2)"
    by code_simp
  have a3: "whitespace_aligned (chunk_text (cps ''a b c d'') 3)"
    by code_simp
  from worker_count_independence [of 2 3 "cps ''a b c d''" 1 True] a2 a3 show ?thesis
    by simp
qed

section \<open>The most common items\<close>

lemma most_common_length: "length (most_common freq n) = min (nat n) (length freq)"
  by (simp add: most_common_def)

lemma most_common_sorted: "sorted_wrt (\<lambda>a b. snd b \<le> snd a) (most_common freq n)"
proof -
  have "sorted (map (\<lambda>item. - snd item) (sort_key (\<lambda>item. - snd item) freq))"
    by (rule sorted_sort_key)
  then have "sorted_wrt (\<lambda>a b. snd b \<le> snd a) (sort_key (\<lambda>item. - snd item) freq)"
    by (simp add: sorted_map)
  then show ?thesis
    unfolding most_common_def by (rule sorted_wrt_take)
qed

lemma most_common_stable:
  "prefix (filter (\<lambda>item. snd item = c) (most_common freq n)) (filter (\<lambda>item. snd item = c) freq)"
proof -
  let ?ys = "sort_key (\<lambda>item. - snd item) freq"
  have "filter (\<lambda>item. - snd item = - c) ?ys = filter (\<lambda>item. - snd item = - c) freq"
    by (rule sort_key_stable)
  then have st: "filter (\<lambda>item. snd item = c) ?ys = filter (\<lambda>item. snd item = c) freq"
    by simp
  have "filter (\<lambda>item. snd item = c) ?ys =
          filter (\<lambda>item. snd item = c) (take (nat n) ?ys) @
          filter (\<lambda>item. snd item = c) (drop (nat n) ?ys)"
    by (simp only: filter_append [symmetric] append_take_drop_id)
  with st show ?thesis
    unfolding most_common_def prefix_def by metis
qed

lemma most_common_highest:
  "\<exists>rest. mset (most_common freq n @ rest) = mset freq \<and>
          (\<forall>a\<in>set (most_common freq n). \<forall>b\<in>set rest. snd b \<le> snd a)"
proof -
  let ?ys = "sort_key (\<lambda>item. - snd item) freq"
  have "sorted_wrt (\<lambda>a b. snd b \<le> snd a) ?ys"
    using sorted_sort_key [of "\<lambda>item. - snd item" freq] by (simp add: sorted_map)
  then have "sorted_wrt (\<lambda>a b. snd b \<le> snd a) (take (nat n) ?ys @ drop (nat n) ?ys)"
    by simp
  then have "\<forall>a\<in>set (take (nat n) ?ys). \<forall>b\<in>set (drop (nat n) ?ys). snd b \<le> snd a"
    unfolding sorted_wrt_append by blast
  moreover have "mset (take (nat n) ?ys @ drop (nat n) ?ys) = mset freq"
    by simp
  ultimately show ?thesis
    unfolding most_common_def by blast
qed

text \<open>
  C7. For every table and every \<open>n \<ge> 0\<close>, \<open>most_common\<close> returns at most \<open>n\<close> items
  (all of them when the table has no more), in descending order of count; items of
  equal count come in the order the table has them; and no item left out has a higher
  count than an item returned. On the example text with stop words in use the two
  most common items are (cat, 2) and (sat, 1).
\<close>

theorem most_common_top:
  assumes "0 \<le> n"
  shows "int (length (most_common freq n)) \<le> n \<and>
         length (most_common freq n) = min (nat n) (length freq) \<and>
         sorted_wrt (\<lambda>a b. snd b \<le> snd a) (most_common freq n) \<and>
         (\<forall>c. prefix (filter (\<lambda>item. snd item = c) (most_common freq n))
                     (filter (\<lambda>item. snd item = c) freq)) \<and>
         (\<exists>rest. mset (most_common freq n @ rest) = mset freq \<and>
                 (\<forall>a\<in>set (most_common freq n). \<forall>b\<in>set rest. snd b \<le> snd a)) \<and>
         map_reduce_parallel (cps ''the cat sat on the mat the cat ran'') 1 1 True =
           Inr [(cps ''cat'', 2), (cps ''sat'', 1), (cps ''mat'', 1), (cps ''ran'', 1)] \<and>
         most_common [(cps ''cat'', 2), (cps ''sat'', 1), (cps ''mat'', 1), (cps ''ran'', 1)] 2 =
           [(cps ''cat'', 2), (cps ''sat'', 1)]"
proof -
  have len: "int (length (most_common freq n)) \<le> n"
    using assms by (simp add: most_common_length)
  have run: "map_reduce_parallel (cps ''the cat sat on the mat the cat ran'') 1 1 True =
           Inr [(cps ''cat'', 2), (cps ''sat'', 1), (cps ''mat'', 1), (cps ''ran'', 1)]"
    by code_simp
  have top: "most_common [(cps ''cat'', 2), (cps ''sat'', 1), (cps ''mat'', 1), (cps ''ran'', 1)] 2 =
           [(cps ''cat'', 2), (cps ''sat'', 1)]"
    by code_simp
  from len most_common_length most_common_sorted most_common_stable most_common_highest run top
  show ?thesis by blast
qed

theorem most_common_top_witness:
  "(0::int) \<le> 2 \<and>
   int (length (most_common [(cps ''cat'', 2), (cps ''sat'', 1), (cps ''mat'', 1), (cps ''ran'', 1)] 2)) \<le> 2 \<and>
   sorted_wrt (\<lambda>a b. snd b \<le> snd a)
     (most_common [(cps ''cat'', 2), (cps ''sat'', 1), (cps ''mat'', 1), (cps ''ran'', 1)] 2) \<and>
   prefix (filter (\<lambda>item. snd item = 1)
             (most_common [(cps ''cat'', 2), (cps ''sat'', 1), (cps ''mat'', 1), (cps ''ran'', 1)] 2))
          (filter (\<lambda>item. snd item = 1)
             [(cps ''cat'', 2), (cps ''sat'', 1), (cps ''mat'', 1), (cps ''ran'', 1)])"
proof -
  have n: "(0::int) \<le> 2" by simp
  from most_common_top [OF n, of "[(cps ''cat'', 2), (cps ''sat'', 1), (cps ''mat'', 1), (cps ''ran'', 1)]"] n
  show ?thesis by blast
qed

section \<open>Independence of the order of completion\<close>

lemma run_tasks_fold:
  "foldl (finish_task f parts) futures schedule i =
     (if i \<in> set schedule \<and> i < length parts then Some (f (parts ! i)) else futures i)"
  by (induction schedule arbitrary: futures) (auto simp: finish_task_def)

lemma run_tasks_fair:
  assumes "fair_schedule schedule (length parts)" and "i < length parts"
  shows "run_tasks schedule f parts i = Some (f (parts ! i))"
  using assms by (simp add: run_tasks_def run_tasks_fold fair_schedule_def)

lemma collect_all:
  "\<forall>i\<in>set idx. futures i = Some (g i) \<Longrightarrow> collect futures idx = Some (map g idx)"
  by (induction idx) simp_all

lemma pool_map_scheduled_fair:
  assumes "fair_schedule schedule (length parts)"
  shows "pool_map_scheduled schedule max_workers f parts = Some (pool_map max_workers f parts)"
proof -
  have "collect (run_tasks schedule f parts) [0..<length parts]
          = Some (map (\<lambda>i. f (parts ! i)) [0..<length parts])"
    by (intro collect_all) (simp add: run_tasks_fair [OF assms])
  moreover have "map (\<lambda>i. f (parts ! i)) [0..<length parts] = map f parts"
  proof -
    have "map (\<lambda>i. f (parts ! i)) [0..<length parts]
            = map f (map (\<lambda>i. parts ! i) [0..<length parts])"
      by (simp only: map_map comp_def)
    then show ?thesis by (simp only: map_nth)
  qed
  ultimately show ?thesis
    by (simp add: pool_map_scheduled_def pool_map_def)
qed

lemma pipeline_scheduled_fair:
  assumes "fair_schedule schedule (length (chunk_text s workers))"
  shows "pipeline_scheduled schedule s workers min_len use_stopwords top_n =
           Some (pipeline s workers min_len use_stopwords top_n)"
  by (simp add: pipeline_scheduled_def pipeline_def map_reduce_parallel_def map_phase_def
        pool_map_scheduled_fair [OF assms] pool_map_def Let_def)

text \<open>
  C8. Two runs on the same text with the same \<open>workers\<close>, \<open>min_len\<close>, \<open>use_stopwords\<close>
  and \<open>top_n\<close> can differ only in the order in which the threads finish the chunks.
  Whatever these two orders are, both runs return, and they return the same table and
  the same top words (or the same error): the result is a function of the inputs.
\<close>

theorem pipeline_deterministic:
  assumes "fair_schedule schedule1 (length (chunk_text s workers))"
    and "fair_schedule schedule2 (length (chunk_text s workers))"
  shows "pipeline_scheduled schedule1 s workers min_len use_stopwords top_n =
           pipeline_scheduled schedule2 s workers min_len use_stopwords top_n \<and>
         pipeline_scheduled schedule1 s workers min_len use_stopwords top_n =
           Some (pipeline s workers min_len use_stopwords top_n)"
  by (simp add: pipeline_scheduled_fair [OF assms(1)] pipeline_scheduled_fair [OF assms(2)])

theorem pipeline_deterministic_witness:
  "fair_schedule [0, 1, 2, 3] (length (chunk_text (cps ''a b c d'') 3)) \<and>
   fair_schedule [3, 1, 0, 2] (length (chunk_text (cps ''a b c d'') 3)) \<and>
   pipeline_scheduled [0, 1, 2, 3] (cps ''a b c d'') 3 1 True 2 =
     pipeline_scheduled [3, 1, 0, 2] (cps ''a b c d'') 3 1 True 2 \<and>
   pipeline_scheduled [0, 1, 2, 3] (cps ''a b c d'') 3 1 True 2 =
     Some (Inr ([(cps ''b'', 1), (cps ''c'', 1), (cps ''d'', 1)], [(cps ''b'', 1), (cps ''c'', 1)]))"
proof -
  have f1: "fair_schedule [0, 1, 2, 3] (length (chunk_text (cps ''a b c d'') 3))"
    by code_simp
  have f2: "fair_schedule [3, 1, 0, 2] (length (chunk_text (cps ''a b c d'') 3))"
    by code_simp
  have p: "pipeline (cps ''a b c d'') 3 1 True 2 =
     Inr ([(cps ''b'', 1), (cps ''c'', 1), (cps ''d'', 1)], [(cps ''b'', 1), (cps ''c'', 1)])"
    by code_simp
  from pipeline_deterministic [OF f1 f2, of 1 True 2]
  have same: "pipeline_scheduled [0, 1, 2, 3] (cps ''a b c d'') 3 1 True 2 =
     pipeline_scheduled [3, 1, 0, 2] (cps ''a b c d'') 3 1 True 2"
    and res: "pipeline_scheduled [0, 1, 2, 3] (cps ''a b c d'') 3 1 True 2 =
     Some (pipeline (cps ''a b c d'') 3 1 True 2)"
    by blast+
  from f1 f2 same res [unfolded p] show ?thesis
    by blast
qed

end
